theory Spec2Isabelle
  imports Complex_Main "HOL-Library.Product_Lexorder" "HOL-Library.Multiset"
begin

section \<open>Data model of \<^verbatim>\<open>utilities_tracker/models.py\<close>\<close>

text \<open>
  A \<^verbatim>\<open>datetime.date\<close> is a triple of year, month and day; Python compares two dates
  as it compares the triples, lexicographically. \<open>valid_date\<close> is the invariant of the
  Python type: the constructor raises \<^verbatim>\<open>ValueError\<close> outside it, so every date object
  satisfies it.
\<close>

record date =
  year :: int
  month :: int
  day :: int

definition date_key :: "date \<Rightarrow> int \<times> int \<times> int" where
  "date_key d = (year d, month d, day d)"

definition date_less :: "date \<Rightarrow> date \<Rightarrow> bool" where
  "date_less a b = (date_key a < date_key b)"

definition is_leap :: "int \<Rightarrow> bool" where
  "is_leap y = (y mod 4 = 0 \<and> (y mod 100 \<noteq> 0 \<or> y mod 400 = 0))"

definition days_in_month :: "int \<Rightarrow> int \<Rightarrow> int" where
  "days_in_month y m =
     (if m = 2 then (if is_leap y then 29 else 28)
      else if m = 4 \<or> m = 6 \<or> m = 9 \<or> m = 11 then 30 else 31)"

definition valid_date :: "date \<Rightarrow> bool" where
  "valid_date d =
     (1 \<le> year d \<and> year d \<le> 9999 \<and> 1 \<le> month d \<and> month d \<le> 12 \<and>
      1 \<le> day d \<and> day d \<le> days_in_month (year d) (month d))"

text \<open>
  A row of the table \<^verbatim>\<open>measurement\<close>: the columns \<^verbatim>\<open>id\<close>, \<^verbatim>\<open>date\<close> and \<^verbatim>\<open>value\<close>
  (\<^verbatim>\<open>note\<close> and \<^verbatim>\<open>service_id\<close> are never read by the function verified here). The
  value is a finite \<^verbatim>\<open>Decimal\<close>, modelled by the rational number it denotes. A
  \<^verbatim>\<open>Service\<close> is modelled by its relationship \<^verbatim>\<open>measurements\<close>, the list the ORM hands to
  the method.
\<close>

record measurement =
  id' :: int
  date :: date
  "value" :: rat

record service =
  measurements :: "measurement list"

text \<open>\<^verbatim>\<open>Measurement(id=i, date=date(y, m, d), value=v)\<close>\<close>

definition Measurement :: "int \<Rightarrow> int \<Rightarrow> int \<Rightarrow> int \<Rightarrow> rat \<Rightarrow> measurement" where
  "Measurement i y m d v = \<lparr>id' = i, date = \<lparr>year = y, month = m, day = d\<rparr>, value = v\<rparr>"

section \<open>Decimal arithmetic under Python's default context\<close>

text \<open>
  \<^verbatim>\<open>Decimal.__add__\<close> and \<^verbatim>\<open>Decimal.__sub__\<close> compute the exact result and hand it to
  the context: precision 28, \<^verbatim>\<open>ROUND_HALF_EVEN\<close>, \<^verbatim>\<open>Emax = 999999\<close>,
  \<^verbatim>\<open>Emin = -999999\<close>, with the \<^verbatim>\<open>Overflow\<close> trap enabled. The result is rounded to 28
  significant digits (never below the exponent \<open>Etiny\<close>), and the operation raises
  \<^verbatim>\<open>decimal.Overflow\<close> when the rounded result needs an exponent above \<open>Emax\<close>.
\<close>

datatype error = Overflow

definition prec :: nat where
  "prec = 28"

definition Emax :: int where
  "Emax = 999999"

definition Emin :: int where
  "Emin = - 999999"

definition Etiny :: int where
  "Etiny = Emin - (int prec - 1)"

text \<open>The number of decimal digits of a coefficient, \<^verbatim>\<open>len(str(n))\<close> for \<open>0 \<le> n\<close>.\<close>

function ndigits :: "int \<Rightarrow> nat" where
  "ndigits n = (if n < 10 then 1 else Suc (ndigits (n div 10)))"
  by pat_completeness auto
termination
  by (relation "measure nat") auto

declare ndigits.simps [simp del]

text \<open>
  \<^verbatim>\<open>Decimal.adjusted()\<close>: the exponent of the most significant digit, that is the \<open>e\<close>
  with \<open>10 powi e \<le> \<bar>q\<bar> < 10 powi (e + 1)\<close>.
\<close>

definition adjusted :: "rat \<Rightarrow> int" where
  "adjusted q =
     (if 1 \<le> \<bar>q\<bar> then int (ndigits \<lfloor>\<bar>q\<bar>\<rfloor>) - 1
      else - int (ndigits (\<lceil>1 / \<bar>q\<bar>\<rceil> - 1)))"

definition round_half_even :: "rat \<Rightarrow> int" where
  "round_half_even x =
     (let f = \<lfloor>x\<rfloor>; r = x - of_int f
      in if r < 1 / 2 then f
         else if 1 / 2 < r then f + 1
         else if even f then f else f + 1)"

definition ctx_round :: "rat \<Rightarrow> rat" where
  "ctx_round q =
     (if q = 0 then 0
      else let e = max (adjusted q - (int prec - 1)) Etiny
           in of_int (round_half_even (q / 10 powi e)) * 10 powi e)"

definition ctx_fix :: "rat \<Rightarrow> error + rat" where
  "ctx_fix q =
     (let r = ctx_round q
      in if r \<noteq> 0 \<and> Emax < adjusted r then Inl Overflow else Inr r)"

definition dec_add :: "rat \<Rightarrow> rat \<Rightarrow> error + rat" where
  "dec_add a b = ctx_fix (a + b)"

definition dec_sub :: "rat \<Rightarrow> rat \<Rightarrow> error + rat" where
  "dec_sub a b = ctx_fix (a - b)"

section \<open>\<^verbatim>\<open>Service.consumption_for_month\<close>\<close>

text \<open>
  \<^verbatim>\<open>sorted(self.measurements, key=lambda m: m.date)\<close> is a stable sort on the date, as
  \<open>sort_key\<close> is. The local variables \<^verbatim>\<open>total\<close> and \<^verbatim>\<open>prev_value\<close> are the state of the
  loop; \<^verbatim>\<open>prev_value is None\<close> is \<open>None\<close>.
\<close>

definition sorted_by_date :: "measurement list \<Rightarrow> measurement list" where
  "sorted_by_date xs = sort_key (\<lambda>m. date_key (date m)) xs"

definition in_month :: "int \<Rightarrow> int \<Rightarrow> measurement \<Rightarrow> bool" where
  "in_month yr mon m = (year (date m) = yr \<and> month (date m) = mon)"

text \<open>\<^verbatim>\<open>next((x for x in reversed(ms) if x.date < m.date), None)\<close>\<close>

definition prev_of :: "measurement list \<Rightarrow> measurement \<Rightarrow> measurement option" where
  "prev_of ms m = find (\<lambda>x. date_less (date x) (date m)) (rev ms)"

record locals =
  total :: rat
  prev_value :: "rat option"

definition loop_body :: "measurement list \<Rightarrow> int \<Rightarrow> int \<Rightarrow> measurement \<Rightarrow> locals \<Rightarrow> error + locals" where
  "loop_body ms yr mon m st =
     (if in_month yr mon m then
        let pv = (case prev_value st of
                    None \<Rightarrow> (case prev_of ms m of None \<Rightarrow> 0 | Some prev \<Rightarrow> value prev)
                  | Some v \<Rightarrow> v)
        in case dec_sub (value m) pv of
             Inl e \<Rightarrow> Inl e
           | Inr d \<Rightarrow>
               (case dec_add (total st) d of
                  Inl e \<Rightarrow> Inl e
                | Inr t \<Rightarrow> Inr \<lparr>total = t, prev_value = Some (value m)\<rparr>)
      else Inr st)"

fun loop :: "measurement list \<Rightarrow> int \<Rightarrow> int \<Rightarrow> measurement list \<Rightarrow> locals \<Rightarrow> error + locals" where
  "loop ms yr mon [] st = Inr st"
| "loop ms yr mon (m # rest) st =
     (case loop_body ms yr mon m st of
        Inl e \<Rightarrow> Inl e
      | Inr st' \<Rightarrow> loop ms yr mon rest st')"

definition consumption_for_month :: "service \<Rightarrow> int \<Rightarrow> int \<Rightarrow> error + rat" where
  "consumption_for_month self yr mon =
     (let ms = sorted_by_date (measurements self)
      in case loop ms yr mon ms \<lparr>total = 0, prev_value = None\<rparr> of
           Inl e \<Rightarrow> Inl e
         | Inr st \<Rightarrow> Inr (total st))"

section \<open>The notions of the specification\<close>

text \<open>
  The reading with the latest date of a collection, found by comparing dates only: a
  reading replaces the latest of the readings after it when its date is strictly later,
  so among readings of one date the one later in the collection is taken. Then the value
  a baseline reading contributes: \<^verbatim>\<open>prev.value if prev else Decimal("0")\<close>.
\<close>

fun latest :: "measurement list \<Rightarrow> measurement option" where
  "latest [] = None"
| "latest (x # xs) =
     (case latest xs of
        None \<Rightarrow> Some x
      | Some p \<Rightarrow> if date_less (date p) (date x) then Some x else Some p)"

definition carry_value :: "measurement option \<Rightarrow> rat" where
  "carry_value prev = (case prev of None \<Rightarrow> 0 | Some p \<Rightarrow> value p)"

text \<open>
  A reading is before (after) the target month when its year and month come before
  (after) the target's; \<open>first_day\<close> is the first day of the target month.
\<close>

definition before_month :: "int \<Rightarrow> int \<Rightarrow> measurement \<Rightarrow> bool" where
  "before_month yr mon m =
     (year (date m) < yr \<or> (year (date m) = yr \<and> month (date m) < mon))"

definition after_month :: "int \<Rightarrow> int \<Rightarrow> measurement \<Rightarrow> bool" where
  "after_month yr mon m =
     (yr < year (date m) \<or> (year (date m) = yr \<and> mon < month (date m)))"

definition first_day :: "int \<Rightarrow> int \<Rightarrow> date" where
  "first_day yr mon = \<lparr>year = yr, month = mon, day = 1\<rparr>"

text \<open>The carry-in value: the value of the latest reading before the month, or zero.\<close>

definition carry_in :: "measurement list \<Rightarrow> int \<Rightarrow> int \<Rightarrow> rat" where
  "carry_in rs yr mon = carry_value (latest (filter (before_month yr mon) rs))"

text \<open>
  \<open>in_date_order xs srt\<close>: the list \<open>srt\<close> holds the readings \<open>xs\<close> in ascending date order,
  readings of one date in the order they have in \<open>xs\<close>.
\<close>

definition in_date_order :: "measurement list \<Rightarrow> measurement list \<Rightarrow> bool" where
  "in_date_order xs srt =
     (mset srt = mset xs \<and>
      sorted (map (\<lambda>m. date_key (date m)) srt) \<and>
      (\<forall>k \<in> set srt. filter (\<lambda>x. date x = date k) srt = filter (\<lambda>x. date x = date k) xs))"

text \<open>
  The sum of successive differences of a list of values, the first one taken against
  \<open>prev\<close>, in exact arithmetic; and the consumption of a month as the specification
  words it, for the in-month readings \<open>srt\<close> in ascending date order: the first one is
  diffed against the latest reading of the series strictly before it, or against zero.
\<close>

fun deltas :: "rat \<Rightarrow> rat list \<Rightarrow> rat" where
  "deltas prev [] = 0"
| "deltas prev (v # vs) = (v - prev) + deltas v vs"

definition sum_of_differences :: "measurement list \<Rightarrow> measurement list \<Rightarrow> rat" where
  "sum_of_differences rs srt =
     (case srt of
        [] \<Rightarrow> 0
      | m # ms \<Rightarrow>
          deltas (carry_value (latest (filter (\<lambda>x. date_less (date x) (date m)) rs)))
            (map value (m # ms)))"


definition fits :: "nat \<Rightarrow> rat \<Rightarrow> bool" where
  "fits s q = (of_int \<lfloor>q * 10 ^ s\<rfloor> = q * 10 ^ s \<and> \<bar>q * 10 ^ s\<bar> < 10 ^ 27)"

definition within_precision :: "nat \<Rightarrow> measurement list \<Rightarrow> bool" where
  "within_precision s ms = (int s \<le> - Etiny \<and> list_all (\<lambda>m. fits s (value m)) ms)"

section \<open>Unfolding the definitions on concrete series\<close>

lemmas eval_defs = Measurement_def within_precision_def fits_def Etiny_def Emin_def prec_def
  sorted_by_date_def in_month_def date_less_def date_key_def carry_value_def
  before_month_def carry_in_def first_day_def after_month_def

section \<open>The context rounds nothing that fits its precision\<close>

lemma ndigits_pos: "0 < ndigits n"
  by (subst ndigits.simps) simp

lemma ndigits_upper: "n < 10 ^ ndigits n"
proof (induction n rule: ndigits.induct)
  case (1 n)
  show ?case
  proof (cases "n < 10")
    case True
    then show ?thesis by (subst ndigits.simps) simp
  next
    case False
    with 1 have "n div 10 < 10 ^ ndigits (n div 10)" by simp
    then have "n < 10 * 10 ^ ndigits (n div 10)" by linarith
    with False show ?thesis by (subst ndigits.simps) simp
  qed
qed

lemma ndigits_lower: "0 < n \<Longrightarrow> 10 ^ (ndigits n - 1) \<le> n"
proof (induction n rule: ndigits.induct)
  case (1 n)
  show ?case
  proof (cases "n < 10")
    case True
    with 1(2) show ?thesis by (subst ndigits.simps) simp
  next
    case False
    then have "0 < n div 10" by simp
    with 1 False have "10 ^ (ndigits (n div 10) - 1) \<le> n div 10" by simp
    then have "10 * 10 ^ (ndigits (n div 10) - 1) \<le> n" by linarith
    moreover have "10 * (10::int) ^ (ndigits (n div 10) - 1) = 10 ^ ndigits (n div 10)"
      using ndigits_pos [of "n div 10"] by (cases "ndigits (n div 10)") simp_all
    ultimately show ?thesis using False by (subst ndigits.simps) simp
  qed
qed

lemma rat_of_int_power10: "(of_int ((10::int) ^ k) :: rat) = 10 ^ k"
  by simp

lemma power10_le_rat:
  assumes "(10::int) ^ k \<le> n"
  shows "(10::rat) ^ k \<le> of_int n"
proof -
  have "(of_int ((10::int) ^ k) :: rat) \<le> of_int n"
    using assms by (simp only: of_int_le_iff)
  then show ?thesis by (simp only: rat_of_int_power10)
qed

lemma succ_le_power10_rat:
  assumes "n < (10::int) ^ k"
  shows "of_int n + 1 \<le> (10::rat) ^ k"
proof -
  have "n + 1 \<le> 10 ^ k" using assms by linarith
  then have "(of_int (n + 1) :: rat) \<le> of_int (10 ^ k)" by (simp only: of_int_le_iff)
  moreover have "(of_int (n + 1) :: rat) = of_int n + 1" by simp
  ultimately show ?thesis by (simp only: rat_of_int_power10)
qed

text \<open>\<open>adjusted\<close> is the exponent of the leading digit.\<close>

lemma adjusted_ge1:
  assumes "1 \<le> \<bar>q\<bar>"
  shows "10 powi adjusted q \<le> \<bar>q\<bar>" and "\<bar>q\<bar> < 10 powi (adjusted q + 1)"
proof -
  define n where "n = \<lfloor>\<bar>q\<bar>\<rfloor>"
  define k where "k = ndigits n"
  have n: "0 < n" unfolding n_def using assms by linarith
  have kpos: "0 < k" by (simp add: k_def ndigits_pos)
  have a: "adjusted q = int k - 1" using assms by (simp add: adjusted_def n_def k_def)
  have nq: "of_int n \<le> \<bar>q\<bar>" unfolding n_def by simp
  have qn: "\<bar>q\<bar> < of_int n + 1" unfolding n_def by linarith
  have "(10::int) ^ (k - 1) \<le> n" using ndigits_lower [OF n] unfolding k_def .
  then have "(10::rat) ^ (k - 1) \<le> of_int n" by (rule power10_le_rat)
  with nq have lo: "(10::rat) ^ (k - 1) \<le> \<bar>q\<bar>" by linarith
  have e1: "int k - 1 = int (k - 1)" using kpos by linarith
  show "10 powi adjusted q \<le> \<bar>q\<bar>"
    unfolding a e1 power_int_of_nat by (rule lo)
  have "n < 10 ^ k" unfolding k_def by (rule ndigits_upper)
  then have "of_int n + 1 \<le> (10::rat) ^ k" by (rule succ_le_power10_rat)
  with qn have up: "\<bar>q\<bar> < 10 ^ k" by linarith
  have e2: "int k - 1 + 1 = int k" by simp
  show "\<bar>q\<bar> < 10 powi (adjusted q + 1)"
    unfolding a e2 power_int_of_nat by (rule up)
qed

lemma adjusted_lt1:
  assumes "q \<noteq> 0" "\<bar>q\<bar> < 1"
  shows "10 powi adjusted q \<le> \<bar>q\<bar>" and "\<bar>q\<bar> < 10 powi (adjusted q + 1)"
proof -
  define x where "x = 1 / \<bar>q\<bar>"
  define m where "m = \<lceil>x\<rceil> - 1"
  define k where "k = ndigits m"
  have qpos: "0 < \<bar>q\<bar>" using assms by simp
  have xpos: "0 < x" using qpos by (simp add: x_def)
  have qx: "\<bar>q\<bar> = 1 / x" by (simp add: x_def)
  have x1: "1 < x" using assms(2) qpos by (simp add: x_def)
  have m: "0 < m" unfolding m_def using x1 by linarith
  have kpos: "0 < k" by (simp add: k_def ndigits_pos)
  have a: "adjusted q = - int k" using assms(2) by (simp add: adjusted_def k_def m_def x_def)
  have up: "x \<le> of_int m + 1" unfolding m_def by linarith
  have lo: "of_int m < x" unfolding m_def by linarith
  have "m < 10 ^ k" unfolding k_def by (rule ndigits_upper)
  then have "of_int m + 1 \<le> (10::rat) ^ k" by (rule succ_le_power10_rat)
  with up have xk: "x \<le> 10 ^ k" by linarith
  have "1 / 10 ^ k \<le> 1 / x"
    using xk xpos by (simp add: frac_le)
  then have q1: "inverse (10 ^ k) \<le> \<bar>q\<bar>"
    by (simp add: qx inverse_eq_divide)
  show "10 powi adjusted q \<le> \<bar>q\<bar>"
    unfolding a power_int_minus power_int_of_nat by (rule q1)
  have "(10::int) ^ (k - 1) \<le> m" using ndigits_lower [OF m] unfolding k_def .
  then have "(10::rat) ^ (k - 1) \<le> of_int m" by (rule power10_le_rat)
  with lo have kx: "(10::rat) ^ (k - 1) < x" by linarith
  have p: "(0::rat) < 10 ^ (k - 1)" by simp
  have "1 / x < 1 / 10 ^ (k - 1)"
    using kx p by (simp add: frac_less2)
  then have q2: "\<bar>q\<bar> < inverse (10 ^ (k - 1))"
    by (simp add: qx inverse_eq_divide)
  have e: "- int k + 1 = - int (k - 1)" using kpos by linarith
  show "\<bar>q\<bar> < 10 powi (adjusted q + 1)"
    unfolding a e power_int_minus power_int_of_nat by (rule q2)
qed

lemma adjusted_bounds:
  assumes "q \<noteq> 0"
  shows "10 powi adjusted q \<le> \<bar>q\<bar> \<and> \<bar>q\<bar> < 10 powi (adjusted q + 1)"
proof (cases "1 \<le> \<bar>q\<bar>")
  case True
  then show ?thesis using adjusted_ge1 [of q] by blast
next
  case False
  then have "\<bar>q\<bar> < 1" by simp
  then show ?thesis using adjusted_lt1 [of q] assms by blast
qed

lemma round_half_even_of_int: "round_half_even (of_int n) = n"
  by (simp add: round_half_even_def)

text \<open>
  A number with a coefficient of at most \<open>prec\<close> digits at an exponent the context
  allows is returned as it is: no rounding, no overflow.
\<close>

lemma adjusted_less:
  assumes q0: "q \<noteq> 0" and q: "q = of_int n * 10 powi e0" and n: "\<bar>n\<bar> < 10 ^ prec"
  shows "adjusted q < int prec + e0"
proof (rule ccontr)
  assume "\<not> adjusted q < int prec + e0"
  then have "int prec + e0 \<le> adjusted q" by simp
  then have "(10::rat) powi (int prec + e0) \<le> 10 powi adjusted q"
    by (intro power_int_increasing) simp_all
  also have "\<dots> \<le> \<bar>q\<bar>" using adjusted_bounds [OF q0] by blast
  finally have 1: "(10::rat) powi (int prec + e0) \<le> \<bar>q\<bar>" .
  have pos: "(0::rat) < 10 powi e0" by (simp add: zero_less_power_int)
  have "\<bar>q\<bar> = of_int \<bar>n\<bar> * 10 powi e0"
    using pos by (simp add: q abs_mult)
  moreover have "(of_int \<bar>n\<bar> :: rat) < of_int (10 ^ prec)"
    using n by (simp only: of_int_less_iff)
  then have "(of_int \<bar>n\<bar> :: rat) < 10 ^ prec" by simp
  then have "of_int \<bar>n\<bar> * 10 powi e0 < (10::rat) ^ prec * 10 powi e0"
    using pos by (rule mult_strict_right_mono)
  moreover have "(10::rat) ^ prec * 10 powi e0 = 10 powi (int prec + e0)"
    by (simp add: power_int_add)
  ultimately have "\<bar>q\<bar> < 10 powi (int prec + e0)" by simp
  with 1 show False by simp
qed

lemma ctx_round_exact:
  assumes q: "q = of_int n * 10 powi e0" and n: "\<bar>n\<bar> < 10 ^ prec" and e0: "Etiny \<le> e0"
  shows "ctx_round q = q"
proof (cases "q = 0")
  case True
  then show ?thesis by (simp add: ctx_round_def)
next
  case False
  define e where "e = max (adjusted q - (int prec - 1)) Etiny"
  have "adjusted q < int prec + e0" using adjusted_less [OF False q n] .
  then have le: "e \<le> e0" using e0 by (simp add: e_def)
  define k where "k = nat (e0 - e)"
  have k: "e0 = e + int k" using le by (simp add: k_def)
  have "q = of_int n * (10 powi e * 10 ^ k)"
    by (simp add: q k power_int_add)
  then have qe: "q = of_int (n * 10 ^ k) * 10 powi e" by simp
  have "q / 10 powi e = of_int (n * 10 ^ k)"
    by (subst qe) simp
  then have "round_half_even (q / 10 powi e) = n * 10 ^ k"
    by (simp only: round_half_even_of_int)
  then have "of_int (round_half_even (q / 10 powi e)) * 10 powi e = q"
    using qe by simp
  then show ?thesis using False by (simp add: ctx_round_def Let_def e_def)
qed

lemma ctx_fix_exact:
  assumes q: "q = of_int n * 10 powi e0" and n: "\<bar>n\<bar> < 10 ^ prec"
    and e0: "Etiny \<le> e0" and e1: "int prec + e0 \<le> Emax + 1"
  shows "ctx_fix q = Inr q"
proof -
  have r: "ctx_round q = q" using ctx_round_exact [OF q n e0] .
  have "q \<noteq> 0 \<Longrightarrow> adjusted q \<le> Emax"
    using adjusted_less [OF _ q n] e1 by fastforce
  then show ?thesis by (auto simp: ctx_fix_def r Let_def)
qed

lemma ctx_fix_scaled:
  assumes n: "\<bar>n\<bar> < 10 ^ 28" and s: "int s \<le> - Etiny"
  shows "ctx_fix (of_int n / 10 ^ s) = Inr (of_int n / 10 ^ s)"
proof (rule ctx_fix_exact [where n = n and ?e0.0 = "- int s"])
  show "rat_of_int n / 10 ^ s = rat_of_int n * 10 powi - int s"
    by (simp add: power_int_minus divide_inverse)
  show "\<bar>n\<bar> < 10 ^ prec" using n by (simp add: prec_def)
  show "Etiny \<le> - int s" using s by simp
  show "int prec + - int s \<le> Emax + 1" by (simp add: prec_def Emax_def)
qed

lemma fits_scaled: "fits s q \<longleftrightarrow> (\<exists>n. q = of_int n / 10 ^ s \<and> \<bar>n\<bar> < 10 ^ 27)"
proof
  assume a: "fits s q"
  define n where "n = \<lfloor>q * 10 ^ s\<rfloor>"
  have 1: "of_int n = q * 10 ^ s" using a by (simp add: fits_def n_def)
  then have "q = of_int n / 10 ^ s" by simp
  moreover have "\<bar>of_int n :: rat\<bar> < 10 ^ 27" using a unfolding fits_def 1 by blast
  then have "(of_int \<bar>n\<bar> :: rat) < of_int (10 ^ 27)" by simp
  then have "\<bar>n\<bar> < 10 ^ 27" by (simp only: of_int_less_iff)
  ultimately show "\<exists>n. q = of_int n / 10 ^ s \<and> \<bar>n\<bar> < 10 ^ 27" by blast
next
  assume "\<exists>n. q = of_int n / 10 ^ s \<and> \<bar>n\<bar> < 10 ^ 27"
  then obtain n where q: "q = of_int n / 10 ^ s" and n: "\<bar>n\<bar> < 10 ^ 27" by blast
  have "(of_int \<bar>n\<bar> :: rat) < of_int (10 ^ 27)" using n by (simp only: of_int_less_iff)
  then have "\<bar>of_int n :: rat\<bar> < 10 ^ 27" by simp
  then show "fits s q" by (simp add: fits_def q)
qed

lemma fits_zero: "fits s 0"
  by (simp add: fits_def)

lemma dec_sub_exact:
  assumes "fits s a" "fits s b" "int s \<le> - Etiny"
  shows "dec_sub a b = Inr (a - b)"
proof -
  obtain na where a: "a = of_int na / 10 ^ s" and na: "\<bar>na\<bar> < 10 ^ 27"
    using assms(1) fits_scaled by blast
  obtain nb where b: "b = of_int nb / 10 ^ s" and nb: "\<bar>nb\<bar> < 10 ^ 27"
    using assms(2) fits_scaled by blast
  have e: "a - b = of_int (na - nb) / 10 ^ s" by (simp add: a b diff_divide_distrib)
  have "\<bar>na - nb\<bar> < 10 ^ 28" using na nb by (auto simp: abs_less_iff)
  then show ?thesis unfolding dec_sub_def e using assms(3) by (rule ctx_fix_scaled)
qed

text \<open>
  The running total is the last value minus the carry-in; adding the next difference
  gives the next value minus the carry-in, again within the precision.
\<close>

lemma dec_add_exact:
  assumes "fits s c" "fits s v" "int s \<le> - Etiny"
  shows "dec_add (p - c) (v - p) = Inr (v - c)"
proof -
  obtain nc where c: "c = of_int nc / 10 ^ s" and nc: "\<bar>nc\<bar> < 10 ^ 27"
    using assms(1) fits_scaled by blast
  obtain nv where v: "v = of_int nv / 10 ^ s" and nv: "\<bar>nv\<bar> < 10 ^ 27"
    using assms(2) fits_scaled by blast
  have e: "(p - c) + (v - p) = of_int (nv - nc) / 10 ^ s" by (simp add: c v diff_divide_distrib)
  have "\<bar>nv - nc\<bar> < 10 ^ 28" using nc nv by (auto simp: abs_less_iff)
  then have "ctx_fix (of_int (nv - nc) / 10 ^ s) = Inr (of_int (nv - nc) / 10 ^ s)"
    using assms(3) by (rule ctx_fix_scaled)
  then show ?thesis unfolding dec_add_def e by (simp add: c v diff_divide_distrib)
qed

section \<open>What the loop computes\<close>

lemma within_precision_Cons:
  "within_precision s (x # xs) \<longleftrightarrow> fits s (value x) \<and> within_precision s xs"
  by (auto simp: within_precision_def)

lemma within_precision_mem:
  "within_precision s xs \<Longrightarrow> x \<in> set xs \<Longrightarrow> fits s (value x)"
  by (simp add: within_precision_def list_all_iff)

lemma within_precision_scale: "within_precision s xs \<Longrightarrow> int s \<le> - Etiny"
  by (simp add: within_precision_def)

lemma within_precision_sorted:
  "within_precision s (sorted_by_date xs) = within_precision s xs"
  by (simp add: within_precision_def list_all_iff sorted_by_date_def)

lemma within_precision_set:
  "set xs = set ys \<Longrightarrow> within_precision s xs = within_precision s ys"
  by (simp add: within_precision_def list_all_iff)

lemma loop_body_skip: "\<not> in_month yr mon m \<Longrightarrow> loop_body ms yr mon m st = Inr st"
  by (simp add: loop_body_def)

lemma loop_body_some:
  assumes "in_month yr mon m" "fits s (value m)" "fits s p" "fits s c" "int s \<le> - Etiny"
  shows "loop_body ms yr mon m \<lparr>total = p - c, prev_value = Some p\<rparr>
         = Inr \<lparr>total = value m - c, prev_value = Some (value m)\<rparr>"
proof -
  have 1: "dec_sub (value m) p = Inr (value m - p)"
    using assms(2,3,5) by (rule dec_sub_exact)
  have 2: "dec_add (p - c) (value m - p) = Inr (value m - c)"
    using assms(4,2,5) by (rule dec_add_exact)
  show ?thesis using assms(1) by (simp add: loop_body_def 1 2)
qed

lemma prev_of_mem:
  assumes "prev_of ms m = Some p"
  shows "p \<in> set ms"
proof -
  from assms obtain i where "i < length (rev ms)" "p = rev ms ! i"
    by (auto simp: prev_of_def find_Some_iff)
  then have "p \<in> set (rev ms)" using nth_mem by blast
  then show ?thesis by simp
qed

lemma fits_carry_value:
  assumes "within_precision s ms"
  shows "fits s (carry_value (prev_of ms m))"
proof (cases "prev_of ms m")
  case None
  then show ?thesis by (simp add: carry_value_def fits_zero)
next
  case (Some p)
  then have "p \<in> set ms" by (rule prev_of_mem)
  then show ?thesis using Some assms by (simp add: carry_value_def within_precision_mem)
qed

lemma loop_body_none:
  assumes "in_month yr mon m" "fits s (value m)" "within_precision s ms"
  shows "loop_body ms yr mon m \<lparr>total = 0, prev_value = None\<rparr>
         = Inr \<lparr>total = value m - carry_value (prev_of ms m), prev_value = Some (value m)\<rparr>"
proof -
  let ?c = "carry_value (prev_of ms m)"
  have s: "int s \<le> - Etiny" using assms(3) by (rule within_precision_scale)
  have c: "fits s ?c" using assms(3) by (rule fits_carry_value)
  have 1: "dec_sub (value m) ?c = Inr (value m - ?c)"
    using assms(2) c s by (rule dec_sub_exact)
  have "dec_add (?c - ?c) (value m - ?c) = Inr (value m - ?c)"
    using c assms(2) s by (rule dec_add_exact)
  then have 2: "dec_add 0 (value m - ?c) = Inr (value m - ?c)" by simp
  have pv: "(case prev_of ms m of None \<Rightarrow> 0 | Some prev \<Rightarrow> value prev) = ?c"
    by (simp add: carry_value_def)
  show ?thesis using assms(1) by (simp add: loop_body_def pv 1 2)
qed

lemma loop_some:
  assumes "within_precision s xs" "fits s p" "fits s c"
  shows "loop ms yr mon xs \<lparr>total = p - c, prev_value = Some p\<rparr>
         = Inr \<lparr>total = last (p # map value (filter (in_month yr mon) xs)) - c,
                prev_value = Some (last (p # map value (filter (in_month yr mon) xs)))\<rparr>"
  using assms(1,2)
proof (induction xs arbitrary: p)
  case Nil
  then show ?case by simp
next
  case (Cons x xs)
  have s: "int s \<le> - Etiny" using Cons.prems(1) by (rule within_precision_scale)
  have x: "fits s (value x)" and xs: "within_precision s xs"
    using Cons.prems(1) by (simp_all add: within_precision_Cons)
  show ?case
  proof (cases "in_month yr mon x")
    case True
    have "loop_body ms yr mon x \<lparr>total = p - c, prev_value = Some p\<rparr>
          = Inr \<lparr>total = value x - c, prev_value = Some (value x)\<rparr>"
      using True x Cons.prems(2) assms(3) s by (rule loop_body_some)
    moreover have "loop ms yr mon xs \<lparr>total = value x - c, prev_value = Some (value x)\<rparr>
         = Inr \<lparr>total = last (value x # map value (filter (in_month yr mon) xs)) - c,
                prev_value = Some (last (value x # map value (filter (in_month yr mon) xs)))\<rparr>"
      using xs x by (rule Cons.IH)
    ultimately show ?thesis using True by simp
  next
    case False
    then show ?thesis using Cons.IH [OF xs Cons.prems(2)] by (simp add: loop_body_skip)
  qed
qed

lemma loop_none:
  assumes "within_precision s xs" "within_precision s ms"
  shows "loop ms yr mon xs \<lparr>total = 0, prev_value = None\<rparr>
         = (case filter (in_month yr mon) xs of
              [] \<Rightarrow> Inr \<lparr>total = 0, prev_value = None\<rparr>
            | m # rest \<Rightarrow>
                Inr \<lparr>total = last (map value (m # rest)) - carry_value (prev_of ms m),
                     prev_value = Some (last (map value (m # rest)))\<rparr>)"
  using assms(1)
proof (induction xs)
  case Nil
  then show ?case by simp
next
  case (Cons x xs)
  have x: "fits s (value x)" and xs: "within_precision s xs"
    using Cons.prems by (simp_all add: within_precision_Cons)
  show ?case
  proof (cases "in_month yr mon x")
    case True
    have "loop_body ms yr mon x \<lparr>total = 0, prev_value = None\<rparr>
         = Inr \<lparr>total = value x - carry_value (prev_of ms x), prev_value = Some (value x)\<rparr>"
      using True x assms(2) by (rule loop_body_none)
    moreover have "loop ms yr mon xs
           \<lparr>total = value x - carry_value (prev_of ms x), prev_value = Some (value x)\<rparr>
         = Inr \<lparr>total = last (value x # map value (filter (in_month yr mon) xs))
                        - carry_value (prev_of ms x),
                prev_value = Some (last (value x # map value (filter (in_month yr mon) xs)))\<rparr>"
      using xs x fits_carry_value [OF assms(2)] by (rule loop_some)
    ultimately show ?thesis using True by simp
  next
    case False
    then show ?thesis using Cons.IH [OF xs] by (simp add: loop_body_skip)
  qed
qed

lemma consumption_closed_form:
  assumes "within_precision s (measurements self)"
  shows "consumption_for_month self yr mon
         = Inr (case filter (in_month yr mon) (sorted_by_date (measurements self)) of
                  [] \<Rightarrow> 0
                | m # rest \<Rightarrow>
                    last (map value (m # rest))
                      - carry_value (prev_of (sorted_by_date (measurements self)) m))"
proof -
  have c: "within_precision s (sorted_by_date (measurements self))"
    using assms by (simp add: within_precision_sorted)
  show ?thesis
    unfolding consumption_for_month_def Let_def loop_none [OF c c]
    by (simp split: list.splits)
qed

section \<open>Months without readings\<close>

lemma loop_no_match:
  "\<forall>m \<in> set xs. \<not> in_month yr mon m \<Longrightarrow> loop ms yr mon xs st = Inr st"
  by (induction xs) (simp_all add: loop_body_def)

lemma set_sorted_by_date: "set (sorted_by_date xs) = set xs"
  by (simp add: sorted_by_date_def)

lemma valid_date_month_range:
  "valid_date (date m) \<Longrightarrow> in_month yr mon m \<Longrightarrow> 1 \<le> mon \<and> mon \<le> 12"
  by (auto simp: valid_date_def in_month_def)

text \<open>
  Claim C4. When no reading of the series is dated in the target month, the method returns
  the Decimal zero (a value, not an error and not a null). This covers the empty series,
  and every month number outside 1..12, which no valid date can carry.
\<close>

theorem consumption_no_readings_in_month:
  "((\<forall>m \<in> set (measurements self). \<not> in_month yr mon m) \<longrightarrow>
      consumption_for_month self yr mon = Inr 0) \<and>
   (consumption_for_month \<lparr>measurements = []\<rparr> yr mon = Inr 0) \<and>
   ((\<forall>m \<in> set (measurements self). valid_date (date m)) \<and> (mon < 1 \<or> 12 < mon) \<longrightarrow>
      consumption_for_month self yr mon = Inr 0)"
proof (intro conjI impI)
  assume "\<forall>m \<in> set (measurements self). \<not> in_month yr mon m"
  then show "consumption_for_month self yr mon = Inr 0"
    by (simp add: consumption_for_month_def loop_no_match set_sorted_by_date)
next
  show "consumption_for_month \<lparr>measurements = []\<rparr> yr mon = Inr 0"
    by (simp add: consumption_for_month_def sorted_by_date_def)
next
  assume a: "(\<forall>m \<in> set (measurements self). valid_date (date m)) \<and> (mon < 1 \<or> 12 < mon)"
  have "\<forall>m \<in> set (measurements self). \<not> in_month yr mon m"
    using a valid_date_month_range by fastforce
  then show "consumption_for_month self yr mon = Inr 0"
    by (simp add: consumption_for_month_def loop_no_match set_sorted_by_date)
qed

theorem consumption_no_readings_in_month_witness:
  "consumption_for_month \<lparr>measurements = [Measurement 1 2025 1 1 120]\<rparr> 2025 2 = Inr 0 \<and>
   consumption_for_month \<lparr>measurements = [Measurement 1 2025 1 1 120]\<rparr> 2025 13 = Inr 0"
  using consumption_no_readings_in_month
          [of "\<lparr>measurements = [Measurement 1 2025 1 1 120]\<rparr>" 2025 2]
        consumption_no_readings_in_month
          [of "\<lparr>measurements = [Measurement 1 2025 1 1 120]\<rparr>" 2025 13]
  by (simp add: Measurement_def in_month_def valid_date_def days_in_month_def)

section \<open>The baseline search and the sorted series\<close>

lemma find_rev_filter:
  "find P (rev ys) = (case filter P ys of [] \<Rightarrow> None | z # zs \<Rightarrow> Some (last (z # zs)))"
proof (induction ys rule: rev_induct)
  case Nil
  then show ?case by simp
next
  case (snoc y ys)
  then show ?case by (cases "filter P ys") simp_all
qed

lemma filter_sorted_by_date:
  "filter P (sorted_by_date rs) = sorted_by_date (filter P rs)"
  by (simp add: sorted_by_date_def filter_sort)

lemma sorted_sorted_by_date: "sorted (map (\<lambda>m. date_key (date m)) (sorted_by_date xs))"
  by (simp add: sorted_by_date_def)

text \<open>The stable sort puts last the reading that \<open>latest\<close> finds.\<close>

lemma last_insort_key:
  assumes "sorted (map f ys)"
  shows "last (insort_key f x ys) = (if ys = [] \<or> f (last ys) < f x then x else last ys)"
  using assms
proof (induction ys)
  case Nil
  then show ?case by simp
next
  case (Cons y ys)
  show ?case
  proof (cases "f x \<le> f y")
    case True
    have "f y \<le> f (last (y # ys))"
      using Cons.prems by (cases "ys = []") auto
    then have "\<not> f (last (y # ys)) < f x" using True by simp
    then show ?thesis using True by simp
  next
    case False
    have s: "sorted (map f ys)" using Cons.prems by simp
    have ne: "insort_key f x ys \<noteq> []" by (cases ys) simp_all
    show ?thesis
    proof (cases "ys = []")
      case True
      then show ?thesis using False by auto
    next
      case ys: False
      then show ?thesis using False ne Cons.IH [OF s] by simp
    qed
  qed
qed

lemma sorted_by_date_Nil: "sorted_by_date xs = [] \<longleftrightarrow> xs = []"
  by (metis set_sorted_by_date set_empty)

lemma latest_sorted:
  "latest xs = (case sorted_by_date xs of [] \<Rightarrow> None | y # ys \<Rightarrow> Some (last (y # ys)))"
proof (induction xs)
  case Nil
  then show ?case by (simp add: sorted_by_date_def)
next
  case (Cons x xs)
  let ?f = "\<lambda>m. date_key (date m)"
  let ?ys = "sorted_by_date xs"
  have c: "sorted_by_date (x # xs) = insort_key ?f x ?ys"
    by (simp add: sorted_by_date_def)
  have ne: "insort_key ?f x ?ys \<noteq> []" by (cases ?ys) simp_all
  have l: "last (insort_key ?f x ?ys)
           = (if ?ys = [] \<or> ?f (last ?ys) < ?f x then x else last ?ys)"
    using sorted_sorted_by_date [of xs] by (rule last_insort_key)
  have r: "(case insort_key ?f x ?ys of [] \<Rightarrow> None | y # ys \<Rightarrow> Some (last (y # ys)))
           = Some (last (insort_key ?f x ?ys))"
    using ne by (cases "insort_key ?f x ?ys") simp_all
  show ?case
  proof (cases "?ys = []")
    case True
    then have "latest xs = None" using Cons.IH by simp
    then show ?thesis unfolding c r l using True by simp
  next
    case False
    then have "latest xs = Some (last ?ys)"
      using Cons.IH by (cases ?ys) simp_all
    then show ?thesis unfolding c r l using False by (simp add: date_less_def)
  qed
qed

lemma find_rev_sorted: "find P (rev (sorted_by_date rs)) = latest (filter P rs)"
  by (simp add: find_rev_filter filter_sorted_by_date latest_sorted)

lemma prev_of_latest:
  "prev_of (sorted_by_date rs) m = latest (filter (\<lambda>x. date_less (date x) (date m)) rs)"
  by (simp add: prev_of_def find_rev_sorted)

lemma deltas_telescope: "deltas c (v # vs) = last (v # vs) - c"
  by (induction vs arbitrary: c v) simp_all

lemma date_key_inj: "date_key a = date_key b \<Longrightarrow> a = b"
  by (cases a, cases b) (simp add: date_key_def)

lemma in_date_order_sorted:
  assumes "in_date_order xs srt"
  shows "srt = sorted_by_date xs"
proof -
  let ?f = "\<lambda>m. date_key (date m)"
  have m: "mset srt = mset xs" and s: "sorted (map ?f srt)"
    and st: "\<forall>k \<in> set srt. filter (\<lambda>x. date x = date k) srt = filter (\<lambda>x. date x = date k) xs"
    using assms by (simp_all add: in_date_order_def)
  have e: "(\<lambda>x. ?f k = ?f x) = (\<lambda>x. date x = date k)" for k :: measurement
    by (rule ext) (auto dest: date_key_inj)
  have "filter (\<lambda>x. ?f k = ?f x) srt = filter (\<lambda>x. ?f k = ?f x) xs" if "k \<in> set srt" for k
    unfolding e using st that by blast
  with m s have "sort_key ?f xs = srt"
    by (intro properties_for_sort_key)
  then show ?thesis by (simp add: sorted_by_date_def)
qed

lemma sorted_by_date_in_date_order: "in_date_order xs (sorted_by_date xs)"
proof -
  let ?f = "\<lambda>m. date_key (date m)"
  have e: "(\<lambda>x. date x = date k) = (\<lambda>x. ?f x = ?f k)" for k :: measurement
    by (rule ext) (auto dest: date_key_inj)
  show ?thesis
    unfolding in_date_order_def sorted_by_date_def e
    by (simp add: sort_key_stable)
qed

lemma sum_of_differences_closed_form:
  "sum_of_differences rs (filter (in_month yr mon) (sorted_by_date rs))
   = (case filter (in_month yr mon) (sorted_by_date rs) of
        [] \<Rightarrow> 0
      | m # rest \<Rightarrow>
          last (map value (m # rest)) - carry_value (prev_of (sorted_by_date rs) m))"
  unfolding sum_of_differences_def prev_of_latest
  by (simp only: deltas_telescope list.map split: list.splits)

lemma consumption_spec:
  assumes p: "within_precision s (measurements self)"
    and o: "in_date_order (filter (in_month yr mon) (measurements self)) srt"
  shows "consumption_for_month self yr mon = Inr (sum_of_differences (measurements self) srt)"
proof -
  have "srt = filter (in_month yr mon) (sorted_by_date (measurements self))"
    using in_date_order_sorted [OF o] by (simp add: filter_sorted_by_date)
  then show ?thesis
    using consumption_closed_form [OF p] by (simp add: sum_of_differences_closed_form)
qed

lemma latest_None: "latest xs = None \<longleftrightarrow> xs = []"
proof -
  have "sorted_by_date xs = [] \<longleftrightarrow> xs = []"
    by (rule sorted_by_date_Nil)
  then show ?thesis by (cases "sorted_by_date xs") (simp_all add: latest_sorted)
qed

lemma latest_Some:
  assumes "latest xs = Some p"
  shows "p \<in> set xs \<and> (\<forall>x \<in> set xs. date_key (date x) \<le> date_key (date p))"
proof -
  let ?s = "sorted_by_date xs"
  from assms have ne: "?s \<noteq> []" and p: "p = last ?s"
    by (auto simp: latest_sorted split: list.splits)
  have "p \<in> set ?s" using ne p by simp
  then have 1: "p \<in> set xs" by (simp add: set_sorted_by_date)
  have "\<forall>x \<in> set ?s. date_key (date x) \<le> date_key (date p)"
  proof
    fix x assume "x \<in> set ?s"
    then obtain i where i: "i < length ?s" "x = ?s ! i" by (auto simp: in_set_conv_nth)
    have "map (\<lambda>m. date_key (date m)) ?s ! i \<le> map (\<lambda>m. date_key (date m)) ?s ! (length ?s - 1)"
      using sorted_sorted_by_date [of xs] i by (intro sorted_nth_mono) simp_all
    then show "date_key (date x) \<le> date_key (date p)"
      using i ne p by (simp add: last_conv_nth)
  qed
  then show ?thesis using 1 by (simp add: set_sorted_by_date)
qed

lemma sorted_head_least:
  assumes "sorted_by_date xs = m # rest" "x \<in> set xs"
  shows "date_key (date m) \<le> date_key (date x)"
proof -
  have "sorted (map (\<lambda>m. date_key (date m)) (m # rest))"
    using sorted_sorted_by_date [of xs] assms(1) by simp
  moreover have "x \<in> set (m # rest)" using assms set_sorted_by_date [of xs] by simp
  ultimately show ?thesis by auto
qed

lemma first_in_month_before:
  assumes s: "sorted_by_date (filter (in_month yr mon) rs) = m # rest" and x: "x \<in> set rs"
  shows "date_less (date x) (date m) \<longleftrightarrow> before_month yr mon x"
proof -
  have "m \<in> set (sorted_by_date (filter (in_month yr mon) rs))" using s by simp
  then have m: "in_month yr mon m" by (simp add: set_sorted_by_date)
  show ?thesis
  proof
    assume "before_month yr mon x"
    then show "date_less (date x) (date m)"
      using m by (auto simp: before_month_def in_month_def date_less_def date_key_def)
  next
    assume l: "date_less (date x) (date m)"
    show "before_month yr mon x"
    proof (rule ccontr)
      assume nb: "\<not> before_month yr mon x"
      with l m have "in_month yr mon x"
        by (auto simp: before_month_def in_month_def date_less_def date_key_def)
      then have "x \<in> set (filter (in_month yr mon) rs)" using x by simp
      then have "date_key (date m) \<le> date_key (date x)" using s by (rule sorted_head_least [rotated])
      with l show False by (simp add: date_less_def)
    qed
  qed
qed

lemma filter_before_first:
  assumes "sorted_by_date (filter (in_month yr mon) rs) = m # rest"
  shows "filter (\<lambda>x. date_less (date x) (date m)) rs = filter (before_month yr mon) rs"
  using first_in_month_before [OF assms] by (intro filter_cong) simp_all

lemma before_first_day:
  assumes "1 \<le> day (date x)"
  shows "date_less (date x) (first_day yr mon) \<longleftrightarrow> before_month yr mon x"
  using assms by (auto simp: date_less_def date_key_def first_day_def before_month_def)

text \<open>With a reading in the month, the result is the last in-month value minus the carry-in.\<close>

lemma prev_of_first_in_month:
  assumes "filter (in_month yr mon) (sorted_by_date rs) = m # rest"
  shows "prev_of (sorted_by_date rs) m = latest (filter (before_month yr mon) rs)"
proof -
  have "sorted_by_date (filter (in_month yr mon) rs) = m # rest"
    using assms by (simp add: filter_sorted_by_date)
  then show ?thesis by (simp add: prev_of_latest filter_before_first)
qed

lemma consumption_telescoped:
  assumes p: "within_precision s (measurements self)"
    and l: "latest (filter (in_month yr mon) (measurements self)) = Some ml"
  shows "consumption_for_month self yr mon
         = Inr (value ml - carry_in (measurements self) yr mon)"
proof -
  let ?rs = "measurements self"
  from l obtain m rest where s: "sorted_by_date (filter (in_month yr mon) ?rs) = m # rest"
    and ml: "ml = last (m # rest)"
    by (auto simp: latest_sorted split: list.splits)
  have f: "filter (in_month yr mon) (sorted_by_date ?rs) = m # rest"
    using s by (simp add: filter_sorted_by_date)
  have "last (map value (m # rest)) = value ml"
    unfolding ml by (rule last_map) simp
  then show ?thesis
    unfolding consumption_closed_form [OF p] f carry_in_def
    using prev_of_first_in_month [OF f] by simp
qed

section \<open>The sum of successive differences\<close>

text \<open>
  Claim C1, as stated for every collection of readings. With \<open>10 ^ 30\<close> on 2025-02-01 and
  1 on 2025-02-02 the two readings are the in-month readings in ascending date order and
  the sum of their successive differences is \<open>(10 ^ 30 - 0) + (1 - 10 ^ 30) = 1\<close>; the
  method returns 0, because the context rounds \<open>1 - 10 ^ 30\<close> to 28 digits.
\<close>

theorem sum_of_differences_counterexample:
  "in_date_order
     (filter (in_month 2025 2) [Measurement 1 2025 2 1 (10 ^ 30), Measurement 2 2025 2 2 1])
     [Measurement 1 2025 2 1 (10 ^ 30), Measurement 2 2025 2 2 1] \<and>
   sum_of_differences [Measurement 1 2025 2 1 (10 ^ 30), Measurement 2 2025 2 2 1]
     [Measurement 1 2025 2 1 (10 ^ 30), Measurement 2 2025 2 2 1] = 1 \<and>
   consumption_for_month
     \<lparr>measurements = [Measurement 1 2025 2 1 (10 ^ 30), Measurement 2 2025 2 2 1]\<rparr> 2025 2
   = Inr 0"
proof (intro conjI)
  show "in_date_order
     (filter (in_month 2025 2) [Measurement 1 2025 2 1 (10 ^ 30), Measurement 2 2025 2 2 1])
     [Measurement 1 2025 2 1 (10 ^ 30), Measurement 2 2025 2 2 1]"
    by (simp add: in_date_order_def eval_defs)
  show "sum_of_differences [Measurement 1 2025 2 1 (10 ^ 30), Measurement 2 2025 2 2 1]
     [Measurement 1 2025 2 1 (10 ^ 30), Measurement 2 2025 2 2 1] = 1"
    by (simp add: sum_of_differences_def eval_defs)
  show "consumption_for_month
     \<lparr>measurements = [Measurement 1 2025 2 1 (10 ^ 30), Measurement 2 2025 2 2 1]\<rparr> 2025 2
   = Inr 0"
    by code_simp
qed

text \<open>
  Claim C1, amended. On readings whose values fit the precision of the decimal context,
  the method returns the sum, over the in-month readings in ascending date order (readings
  of one date in their input order), of each value minus the previous in-month value, the
  first in-month reading being diffed against the value of the latest reading strictly
  before it, or against zero when there is none. For the readings 120.0 on 2025-01-01,
  150.0 on 2025-02-01 and 180.0 on 2025-02-20 and the month (2025, 2) the result is 60.
\<close>

theorem consumption_sums_successive_differences:
  assumes "within_precision s (measurements self)"
    and "in_date_order (filter (in_month yr mon) (measurements self)) srt"
  shows "consumption_for_month self yr mon = Inr (sum_of_differences (measurements self) srt)"
  using assms by (rule consumption_spec)

theorem consumption_sums_successive_differences_witness:
  "within_precision 3
     [Measurement 1 2025 1 1 120, Measurement 2 2025 2 20 180, Measurement 3 2025 2 1 150] \<and>
   in_date_order
     (filter (in_month 2025 2)
        [Measurement 1 2025 1 1 120, Measurement 2 2025 2 20 180, Measurement 3 2025 2 1 150])
     [Measurement 3 2025 2 1 150, Measurement 2 2025 2 20 180] \<and>
   consumption_for_month
     \<lparr>measurements =
        [Measurement 1 2025 1 1 120, Measurement 2 2025 2 20 180, Measurement 3 2025 2 1 150]\<rparr>
     2025 2 = Inr 60"
proof -
  let ?rs = "[Measurement 1 2025 1 1 120, Measurement 2 2025 2 20 180, Measurement 3 2025 2 1 150]"
  let ?srt = "[Measurement 3 2025 2 1 150, Measurement 2 2025 2 20 180]"
  have h: "within_precision 3 (measurements \<lparr>measurements = ?rs\<rparr>)"
    by (simp add: eval_defs)
  have o: "in_date_order (filter (in_month 2025 2) (measurements \<lparr>measurements = ?rs\<rparr>)) ?srt"
    by (simp add: in_date_order_def eval_defs)
  have "sum_of_differences ?rs ?srt = 60"
    by (simp add: sum_of_differences_def eval_defs)
  then show ?thesis
    using h o consumption_sums_successive_differences [OF h o] by simp
qed

lemma filter_before_first_day:
  assumes "\<forall>x \<in> set rs. valid_date (date x)"
  shows "filter (\<lambda>x. date_less (date x) (first_day yr mon)) rs = filter (before_month yr mon) rs"
proof (rule filter_cong [OF refl])
  fix x assume "x \<in> set rs"
  then have "1 \<le> day (date x)" using assms by (simp add: valid_date_def)
  then show "date_less (date x) (first_day yr mon) = before_month yr mon x"
    by (rule before_first_day)
qed

section \<open>The baseline\<close>

text \<open>
  Claim C2. Let \<open>m\<close> be the first in-month reading of the sorted series. The baseline the
  loop looks up for it, the last reading of the sorted series dated strictly before
  \<open>m\<close>, is the latest reading dated strictly before the first day of the target month: it
  is a reading of the series before that day, no reading before that day has a later
  date, and there is none exactly when no reading is before that day, in which case the
  carry-in value is zero. The result of the method is the last in-month value minus the
  value of that reading.
\<close>

theorem baseline_is_latest_before_first_day:
  assumes v: "\<forall>x \<in> set rs. valid_date (date x)"
    and f: "filter (in_month yr mon) (sorted_by_date rs) = m # rest"
  shows "prev_of (sorted_by_date rs) m
           = latest (filter (\<lambda>x. date_less (date x) (first_day yr mon)) rs) \<and>
         (case prev_of (sorted_by_date rs) m of
            None \<Rightarrow> \<forall>x \<in> set rs. \<not> date_less (date x) (first_day yr mon)
          | Some p \<Rightarrow>
              p \<in> set rs \<and> date_less (date p) (first_day yr mon) \<and>
              (\<forall>x \<in> set rs. date_less (date x) (first_day yr mon)
                 \<longrightarrow> date_key (date x) \<le> date_key (date p))) \<and>
         ((\<forall>x \<in> set rs. \<not> date_less (date x) (first_day yr mon))
            \<longrightarrow> carry_value (prev_of (sorted_by_date rs) m) = 0) \<and>
         (within_precision s rs \<longrightarrow>
            consumption_for_month \<lparr>measurements = rs\<rparr> yr mon
              = Inr (last (map value (m # rest))
                       - carry_value
                           (latest (filter (\<lambda>x. date_less (date x) (first_day yr mon)) rs))))"
proof -
  let ?B = "filter (\<lambda>x. date_less (date x) (first_day yr mon)) rs"
  have eq: "prev_of (sorted_by_date rs) m = latest ?B"
    using prev_of_first_in_month [OF f] filter_before_first_day [OF v] by simp
  have char: "case latest ?B of
            None \<Rightarrow> \<forall>x \<in> set rs. \<not> date_less (date x) (first_day yr mon)
          | Some p \<Rightarrow>
              p \<in> set rs \<and> date_less (date p) (first_day yr mon) \<and>
              (\<forall>x \<in> set rs. date_less (date x) (first_day yr mon)
                 \<longrightarrow> date_key (date x) \<le> date_key (date p))"
  proof (cases "latest ?B")
    case None
    then have "?B = []" by (simp add: latest_None)
    then show ?thesis using None by (simp add: filter_empty_conv)
  next
    case (Some p)
    then show ?thesis using latest_Some [OF Some] by simp
  qed
  have zero: "(\<forall>x \<in> set rs. \<not> date_less (date x) (first_day yr mon))
            \<longrightarrow> carry_value (latest ?B) = 0"
  proof
    assume "\<forall>x \<in> set rs. \<not> date_less (date x) (first_day yr mon)"
    then have "?B = []" by (simp add: filter_empty_conv)
    then have "latest ?B = None" by (simp add: latest_None)
    then show "carry_value (latest ?B) = 0" by (simp add: carry_value_def)
  qed
  have res: "within_precision s rs \<longrightarrow>
            consumption_for_month \<lparr>measurements = rs\<rparr> yr mon
              = Inr (last (map value (m # rest)) - carry_value (latest ?B))"
  proof
    assume p: "within_precision s rs"
    show "consumption_for_month \<lparr>measurements = rs\<rparr> yr mon
              = Inr (last (map value (m # rest)) - carry_value (latest ?B))"
      using consumption_closed_form [of s "\<lparr>measurements = rs\<rparr>" yr mon] p f eq by simp
  qed
  show ?thesis using char zero res unfolding eq by blast
qed

theorem baseline_is_latest_before_first_day_witness:
  "prev_of
     (sorted_by_date
        [Measurement 1 2025 1 1 120, Measurement 2 2025 2 1 150, Measurement 3 2025 2 20 180])
     (Measurement 2 2025 2 1 150)
   = Some (Measurement 1 2025 1 1 120) \<and>
   latest (filter (\<lambda>x. date_less (date x) (first_day 2025 2))
     [Measurement 1 2025 1 1 120, Measurement 2 2025 2 1 150, Measurement 3 2025 2 20 180])
   = Some (Measurement 1 2025 1 1 120)"
proof -
  let ?rs = "[Measurement 1 2025 1 1 120, Measurement 2 2025 2 1 150, Measurement 3 2025 2 20 180]"
  have v: "\<forall>x \<in> set ?rs. valid_date (date x)"
    by (simp add: eval_defs valid_date_def days_in_month_def is_leap_def)
  have f: "filter (in_month 2025 2) (sorted_by_date ?rs)
           = Measurement 2 2025 2 1 150 # [Measurement 3 2025 2 20 180]"
    by (simp add: eval_defs)
  have l: "latest (filter (\<lambda>x. date_less (date x) (first_day 2025 2)) ?rs)
           = Some (Measurement 1 2025 1 1 120)"
    by (simp add: eval_defs)
  show ?thesis
    using baseline_is_latest_before_first_day [OF v f, of 3] l by simp
qed

lemma latest_single: "latest [m] = Some m"
  by simp

section \<open>One reading in the month, and telescoping\<close>

text \<open>
  Claim C5, as stated for every collection. The single reading
  10000000000000000000000000005 on 2025-02-01, with no earlier reading: the method
  returns \<open>10 ^ 28\<close>, the value rounded to 28 digits, not the value.
\<close>

theorem single_reading_counterexample:
  "filter (in_month 2025 2) [Measurement 1 2025 2 1 10000000000000000000000000005]
     = [Measurement 1 2025 2 1 10000000000000000000000000005] \<and>
   filter (before_month 2025 2) [Measurement 1 2025 2 1 10000000000000000000000000005] = [] \<and>
   consumption_for_month
     \<lparr>measurements = [Measurement 1 2025 2 1 10000000000000000000000000005]\<rparr> 2025 2
   = Inr 10000000000000000000000000000"
proof (intro conjI)
  show "filter (in_month 2025 2) [Measurement 1 2025 2 1 10000000000000000000000000005]
     = [Measurement 1 2025 2 1 10000000000000000000000000005]"
    by (simp add: eval_defs)
  show "filter (before_month 2025 2) [Measurement 1 2025 2 1 10000000000000000000000000005] = []"
    by (simp add: eval_defs)
  show "consumption_for_month
     \<lparr>measurements = [Measurement 1 2025 2 1 10000000000000000000000000005]\<rparr> 2025 2
   = Inr 10000000000000000000000000000"
    by code_simp
qed

text \<open>
  Claim C5, amended. On readings whose values fit the precision of the decimal context,
  when exactly one reading \<open>m\<close> of the series is dated in the target month, the result is
  its value minus the carry-in value (the value of the latest reading before the month,
  or zero), and it is the value of \<open>m\<close> itself when no reading is before the month. The
  reading 150.0 on 2025-02-01 alone gives 150; with 120.0 on 2025-01-01 before it, 30.
\<close>

theorem single_in_month_reading:
  assumes p: "within_precision s (measurements self)"
    and f: "filter (in_month yr mon) (measurements self) = [m]"
  shows "consumption_for_month self yr mon
           = Inr (value m - carry_in (measurements self) yr mon) \<and>
         (filter (before_month yr mon) (measurements self) = []
            \<longrightarrow> consumption_for_month self yr mon = Inr (value m))"
proof -
  have l: "latest (filter (in_month yr mon) (measurements self)) = Some m"
    unfolding f by (rule latest_single)
  have r: "consumption_for_month self yr mon
           = Inr (value m - carry_in (measurements self) yr mon)"
    using p l by (rule consumption_telescoped)
  have "filter (before_month yr mon) (measurements self) = []
        \<Longrightarrow> carry_in (measurements self) yr mon = 0"
    by (simp add: carry_in_def carry_value_def)
  then show ?thesis using r by simp
qed

theorem single_in_month_reading_witness:
  "consumption_for_month \<lparr>measurements = [Measurement 1 2025 2 1 150]\<rparr> 2025 2 = Inr 150 \<and>
   consumption_for_month
     \<lparr>measurements = [Measurement 1 2025 1 1 120, Measurement 2 2025 2 1 150]\<rparr> 2025 2
     = Inr 30"
proof -
  let ?a = "\<lparr>measurements = [Measurement 1 2025 2 1 150]\<rparr>"
  let ?b = "\<lparr>measurements = [Measurement 1 2025 1 1 120, Measurement 2 2025 2 1 150]\<rparr>"
  have pa: "within_precision 3 (measurements ?a)" by (simp add: eval_defs)
  have fa: "filter (in_month 2025 2) (measurements ?a) = [Measurement 1 2025 2 1 150]"
    by (simp add: eval_defs)
  have na: "filter (before_month 2025 2) (measurements ?a) = []"
    by (simp add: eval_defs)
  have pb: "within_precision 3 (measurements ?b)" by (simp add: eval_defs)
  have fb: "filter (in_month 2025 2) (measurements ?b) = [Measurement 2 2025 2 1 150]"
    by (simp add: eval_defs)
  have cb: "carry_in (measurements ?b) 2025 2 = 120"
    by (simp add: eval_defs)
  have va: "value (Measurement 1 2025 2 1 150) = 150" by (simp add: Measurement_def)
  have vb: "value (Measurement 2 2025 2 1 150) = 150" by (simp add: Measurement_def)
  have a: "consumption_for_month ?a 2025 2 = Inr 150"
    using conjunct2 [OF single_in_month_reading [OF pa fa]] na va by simp
  have b: "consumption_for_month ?b 2025 2 = Inr 30"
    using conjunct1 [OF single_in_month_reading [OF pb fb]] cb vb by simp
  show ?thesis using a b by simp
qed

text \<open>
  Claim C10, as stated for every collection with pairwise-distinct dates. With
  \<open>- 10 ^ 27\<close> on 2025-01-31, 9000000000000000000000000004 on 2025-02-01 and 5 on
  2025-02-02 the latest in-month value minus the carry-in is \<open>10 ^ 27 + 5\<close>; the method
  returns \<open>10 ^ 27 + 1\<close>, because the first difference is rounded to 28 digits: the
  intermediate reading does influence the result.
\<close>

theorem telescoping_counterexample:
  "distinct (map date
     [Measurement 1 2025 1 31 (- 1000000000000000000000000000),
      Measurement 2 2025 2 1 9000000000000000000000000004, Measurement 3 2025 2 2 5]) \<and>
   carry_in
     [Measurement 1 2025 1 31 (- 1000000000000000000000000000),
      Measurement 2 2025 2 1 9000000000000000000000000004, Measurement 3 2025 2 2 5] 2025 2
     = - 1000000000000000000000000000 \<and>
   consumption_for_month
     \<lparr>measurements =
        [Measurement 1 2025 1 31 (- 1000000000000000000000000000),
         Measurement 2 2025 2 1 9000000000000000000000000004, Measurement 3 2025 2 2 5]\<rparr>
     2025 2 = Inr 1000000000000000000000000001"
proof (intro conjI)
  show "distinct (map date
     [Measurement 1 2025 1 31 (- 1000000000000000000000000000),
      Measurement 2 2025 2 1 9000000000000000000000000004, Measurement 3 2025 2 2 5])"
    by (simp add: Measurement_def)
  show "carry_in
     [Measurement 1 2025 1 31 (- 1000000000000000000000000000),
      Measurement 2 2025 2 1 9000000000000000000000000004, Measurement 3 2025 2 2 5] 2025 2
     = - 1000000000000000000000000000"
    by (simp add: eval_defs)
  show "consumption_for_month
     \<lparr>measurements =
        [Measurement 1 2025 1 31 (- 1000000000000000000000000000),
         Measurement 2 2025 2 1 9000000000000000000000000004, Measurement 3 2025 2 2 5]\<rparr>
     2025 2 = Inr 1000000000000000000000000001"
    by code_simp
qed

text \<open>
  Claim C10, amended. On readings whose values fit the precision of the decimal context,
  when no two readings share a date and \<open>ml\<close> is the in-month reading with the latest
  date, the result is the value of \<open>ml\<close> minus the carry-in value (the value of the latest
  reading before the month, or zero): the values of the other in-month readings do not
  occur in it.
\<close>

theorem telescoping_identity:
  assumes p: "within_precision s rs"
    and d: "distinct (map date rs)"
    and ml: "ml \<in> set rs" "in_month yr mon ml"
    and mx: "\<forall>x \<in> set rs. in_month yr mon x \<longrightarrow> date_key (date x) \<le> date_key (date ml)"
  shows "consumption_for_month \<lparr>measurements = rs\<rparr> yr mon
           = Inr (value ml - carry_in rs yr mon)"
proof -
  let ?F = "filter (in_month yr mon) rs"
  have "?F \<noteq> []" using ml by (auto simp: filter_empty_conv)
  then obtain q where q: "latest ?F = Some q"
    using latest_None [of ?F] by (cases "latest ?F") simp_all
  have qF: "q \<in> set ?F" and qmax: "\<forall>x \<in> set ?F. date_key (date x) \<le> date_key (date q)"
    using latest_Some [OF q] by simp_all
  have "date_key (date ml) \<le> date_key (date q)" using qmax ml by simp
  moreover have "date_key (date q) \<le> date_key (date ml)" using mx qF by simp
  ultimately have "date_key (date q) = date_key (date ml)" by simp
  then have "date q = date ml" by (rule date_key_inj)
  moreover have "inj_on date (set rs)" using d by (simp add: distinct_map)
  ultimately have "q = ml" using qF ml by (auto dest: inj_onD)
  then have "latest (filter (in_month yr mon) (measurements \<lparr>measurements = rs\<rparr>)) = Some ml"
    using q by simp
  moreover have "within_precision s (measurements \<lparr>measurements = rs\<rparr>)" using p by simp
  ultimately show ?thesis
    using consumption_telescoped [of s "\<lparr>measurements = rs\<rparr>" yr mon ml] by simp
qed

theorem telescoping_identity_witness:
  "consumption_for_month
     \<lparr>measurements =
        [Measurement 1 2025 1 1 120, Measurement 2 2025 2 1 150, Measurement 3 2025 2 10 165,
         Measurement 4 2025 2 20 180]\<rparr>
     2025 2 = Inr (180 - 120)"
proof -
  let ?rs = "[Measurement 1 2025 1 1 120, Measurement 2 2025 2 1 150,
              Measurement 3 2025 2 10 165, Measurement 4 2025 2 20 180]"
  have p: "within_precision 3 ?rs" by (simp add: eval_defs)
  have d: "distinct (map date ?rs)" by (simp add: Measurement_def)
  have m1: "Measurement 4 2025 2 20 180 \<in> set ?rs" by simp
  have m2: "in_month 2025 2 (Measurement 4 2025 2 20 180)" by (simp add: eval_defs)
  have mx: "\<forall>x \<in> set ?rs. in_month 2025 2 x
              \<longrightarrow> date_key (date x) \<le> date_key (date (Measurement 4 2025 2 20 180))"
    by (simp add: eval_defs)
  have c: "carry_in ?rs 2025 2 = 120" by (simp add: eval_defs)
  have v: "value (Measurement 4 2025 2 20 180) = 180" by (simp add: Measurement_def)
  show ?thesis using telescoping_identity [OF p d m1 m2 mx] c v by simp
qed

section \<open>The method returns\<close>







section \<open>Order of the input\<close>

lemma consumption_sorted_cong:
  assumes "sorted_by_date (measurements a) = sorted_by_date (measurements b)"
  shows "consumption_for_month a yr mon = consumption_for_month b yr mon"
  using assms by (simp add: consumption_for_month_def)

lemma sorted_by_date_permuted:
  assumes d: "distinct (map date rs)" and m: "mset rs' = mset rs"
  shows "sorted_by_date rs' = sorted_by_date rs"
proof -
  let ?f = "\<lambda>m. date_key (date m)"
  have s: "set rs' = set rs" using m by (rule mset_eq_setD)
  have "inj_on date (set rs)" using d by (simp add: distinct_map)
  then have "inj_on ?f (set rs')"
    unfolding s by (auto simp: inj_on_def dest: date_key_inj)
  moreover have "mset rs' = mset (sort_key ?f rs)" using m by simp
  moreover have "sorted (map ?f (sort_key ?f rs))" by simp
  ultimately have "sort_key ?f rs' = sort_key ?f rs"
    by (intro sort_key_inj_key_eq)
  then show ?thesis by (simp add: sorted_by_date_def)
qed

text \<open>
  Claim C3, as stated for all collections. Two readings of the same date, 10 and 20 on
  2025-02-01: the series in one order gives 20, in the other order 10.
\<close>

theorem shuffle_same_date_counterexample:
  "mset [Measurement 1 2025 2 1 10, Measurement 2 2025 2 1 20]
     = mset [Measurement 2 2025 2 1 20, Measurement 1 2025 2 1 10] \<and>
   consumption_for_month
     \<lparr>measurements = [Measurement 1 2025 2 1 10, Measurement 2 2025 2 1 20]\<rparr> 2025 2 = Inr 20 \<and>
   consumption_for_month
     \<lparr>measurements = [Measurement 2 2025 2 1 20, Measurement 1 2025 2 1 10]\<rparr> 2025 2 = Inr 10"
proof (intro conjI)
  show "mset [Measurement 1 2025 2 1 10, Measurement 2 2025 2 1 20]
     = mset [Measurement 2 2025 2 1 20, Measurement 1 2025 2 1 10]"
    by simp
  show "consumption_for_month
     \<lparr>measurements = [Measurement 1 2025 2 1 10, Measurement 2 2025 2 1 20]\<rparr> 2025 2 = Inr 20"
    by code_simp
  show "consumption_for_month
     \<lparr>measurements = [Measurement 2 2025 2 1 20, Measurement 1 2025 2 1 10]\<rparr> 2025 2 = Inr 10"
    by code_simp
qed

text \<open>
  Claim C3, amended. When no two readings of the series share a date, every permutation
  of the series gives the same result, for every year and month.
\<close>

theorem shuffle_distinct_dates:
  assumes "distinct (map date rs)" and "mset rs' = mset rs"
  shows "consumption_for_month \<lparr>measurements = rs'\<rparr> yr mon
         = consumption_for_month \<lparr>measurements = rs\<rparr> yr mon"
  using sorted_by_date_permuted [OF assms] by (intro consumption_sorted_cong) simp

theorem shuffle_distinct_dates_witness:
  "consumption_for_month
     \<lparr>measurements =
        [Measurement 3 2025 2 20 180, Measurement 1 2025 1 1 120, Measurement 2 2025 2 1 150]\<rparr>
     2025 2
   = consumption_for_month
     \<lparr>measurements =
        [Measurement 1 2025 1 1 120, Measurement 2 2025 2 1 150, Measurement 3 2025 2 20 180]\<rparr>
     2025 2"
proof -
  have d: "distinct (map date
     [Measurement 1 2025 1 1 120, Measurement 2 2025 2 1 150, Measurement 3 2025 2 20 180])"
    by (simp add: Measurement_def)
  have m: "mset [Measurement 3 2025 2 20 180, Measurement 1 2025 1 1 120, Measurement 2 2025 2 1 150]
     = mset [Measurement 1 2025 1 1 120, Measurement 2 2025 2 1 150, Measurement 3 2025 2 20 180]"
    by simp
  show ?thesis using d m by (rule shuffle_distinct_dates)
qed

section \<open>Readings after the month\<close>

lemma find_filter_implied:
  assumes "\<And>x. P x \<Longrightarrow> Q x"
  shows "find P (filter Q xs) = find P xs"
  using assms by (induction xs) auto

lemma prev_of_drop_after:
  assumes "in_month yr mon m"
  shows "prev_of (filter (\<lambda>x. \<not> after_month yr mon x) ms) m = prev_of ms m"
proof -
  have "date_less (date x) (date m) \<Longrightarrow> \<not> after_month yr mon x" for x
    using assms by (auto simp: date_less_def date_key_def in_month_def after_month_def)
  then show ?thesis
    unfolding prev_of_def rev_filter by (rule find_filter_implied)
qed

lemma loop_body_drop_after:
  "loop_body (filter (\<lambda>x. \<not> after_month yr mon x) ms) yr mon m st = loop_body ms yr mon m st"
proof (cases "in_month yr mon m")
  case True
  then show ?thesis by (simp add: loop_body_def prev_of_drop_after cong: option.case_cong)
next
  case False
  then show ?thesis by (simp add: loop_body_def)
qed

lemma after_not_in_month: "after_month yr mon m \<Longrightarrow> \<not> in_month yr mon m"
  by (auto simp: after_month_def in_month_def)

lemma loop_drop_after:
  "loop (filter (\<lambda>x. \<not> after_month yr mon x) ms) yr mon
        (filter (\<lambda>x. \<not> after_month yr mon x) xs) st
   = loop ms yr mon xs st"
proof (induction xs arbitrary: st)
  case Nil
  then show ?case by simp
next
  case (Cons x xs)
  show ?case
  proof (cases "after_month yr mon x")
    case True
    then have "loop_body ms yr mon x st = Inr st"
      by (simp add: loop_body_skip after_not_in_month)
    then show ?thesis using True Cons by simp
  next
    case False
    then show ?thesis using Cons by (simp add: loop_body_drop_after split: sum.splits)
  qed
qed

lemma consumption_drop_after:
  "consumption_for_month \<lparr>measurements = filter (\<lambda>x. \<not> after_month yr mon x) rs\<rparr> yr mon
   = consumption_for_month \<lparr>measurements = rs\<rparr> yr mon"
  by (simp add: consumption_for_month_def Let_def filter_sorted_by_date [symmetric] loop_drop_after)

text \<open>
  Claim C6. Two series that differ only in readings dated after the target month (they
  agree once those are removed) give the same result: such readings are neither in the
  month nor found by the baseline search.
\<close>

theorem after_month_readings_ignored:
  assumes "filter (\<lambda>x. \<not> after_month yr mon x) rs = filter (\<lambda>x. \<not> after_month yr mon x) rs'"
  shows "consumption_for_month \<lparr>measurements = rs\<rparr> yr mon
         = consumption_for_month \<lparr>measurements = rs'\<rparr> yr mon"
  using consumption_drop_after [of yr mon rs] consumption_drop_after [of yr mon rs'] assms
  by simp

theorem after_month_readings_ignored_witness:
  "consumption_for_month
     \<lparr>measurements = [Measurement 1 2025 2 1 150, Measurement 2 2025 3 1 999]\<rparr> 2025 2
   = consumption_for_month \<lparr>measurements = [Measurement 1 2025 2 1 150]\<rparr> 2025 2"
proof -
  have "filter (\<lambda>x. \<not> after_month 2025 2 x)
          [Measurement 1 2025 2 1 150, Measurement 2 2025 3 1 999]
        = filter (\<lambda>x. \<not> after_month 2025 2 x) [Measurement 1 2025 2 1 150]"
    by (simp add: eval_defs)
  then show ?thesis by (rule after_month_readings_ignored)
qed

section \<open>Exactness\<close>













end
